theory Spec2Isabelle
  imports Main "HOL-Library.Word"
begin

unbundle bit_operations_syntax

section \<open>The emulator of cpuarch.py\<close>

text \<open>
  Python integers are unbounded, so registers, addresses, operands and memory cells are
  \<open>int\<close> and every mask of the source (\<open>& 0xFF\<close>, \<open>& 0xFFFF\<close>) is written out.
  The memory is the Python list \<open>self.mem\<close>; a subscript outside the list raises
  IndexError, a lookup of a missing dictionary key raises KeyError, and \<open>step\<close> and
  \<open>run\<close> raise RuntimeError. An exception leaves the object as it was mutated so far,
  so a raised error carries the state at the raise.
\<close>

definition MEM_SIZE :: int where
  "MEM_SIZE = 65536"

record cpu =
  mem :: "int list"
  A :: int
  B :: int
  PC :: int
  Z :: bool
  running :: bool
  output' :: "int list"

datatype error =
    KeyError string
  | IndexError
  | UnknownOpcode int int
  | MaxStepsReached

text \<open>
  \<open>UnknownOpcode opcode p\<close> is the RuntimeError of \<open>step\<close>: \<open>opcode\<close> and \<open>p\<close> are the
  two numbers its message formats, \<open>p\<close> being the value of \<open>self.PC-1\<close>.
  \<open>MaxStepsReached\<close> is the RuntimeError of \<open>run\<close>.
\<close>

type_synonym 'a result = "(error \<times> cpu) + 'a"

definition bindE :: "'a result \<Rightarrow> ('a \<Rightarrow> 'b result) \<Rightarrow> 'b result" where
  "bindE m f = (case m of Inl e \<Rightarrow> Inl e | Inr v \<Rightarrow> f v)"

definition raised :: "'a result \<Rightarrow> error option" where
  "raised r = (case r of Inl (e, s) \<Rightarrow> Some e | Inr v \<Rightarrow> None)"

definition state_at_raise :: "'a result \<Rightarrow> cpu option" where
  "state_at_raise r = (case r of Inl (e, s) \<Rightarrow> Some s | Inr v \<Rightarrow> None)"

subsection \<open>The memory list\<close>

text \<open>Python list subscript: a negative index counts from the end.\<close>

definition py_index :: "int list \<Rightarrow> int \<Rightarrow> nat option" where
  "py_index xs i =
     (let n = int (length xs) in
      if 0 \<le> i \<and> i < n then Some (nat i)
      else if - n \<le> i \<and> i < 0 then Some (nat (i + n))
      else None)"

definition mem_get :: "cpu \<Rightarrow> int \<Rightarrow> int result" where
  "mem_get s i =
     (case py_index (mem s) i of
        None \<Rightarrow> Inl (IndexError, s)
      | Some k \<Rightarrow> Inr (mem s ! k))"

definition mem_set :: "cpu \<Rightarrow> int \<Rightarrow> int \<Rightarrow> cpu result" where
  "mem_set s i v =
     (case py_index (mem s) i of
        None \<Rightarrow> Inl (IndexError, s)
      | Some k \<Rightarrow> Inr (s\<lparr>mem := (mem s)[k := v]\<rparr>))"

subsection \<open>The opcode table\<close>

definition OPCODES :: "(int \<times> string) list" where
  "OPCODES =
     [(0x01, ''LDA''), (0x02, ''LDB''), (0x03, ''LDA_MEM''), (0x04, ''STA''),
      (0x05, ''ADD''), (0x06, ''SUB''), (0x07, ''JMP''), (0x08, ''JZ''),
      (0x09, ''OUT''), (0xFF, ''HLT'')]"

definition OPCODES_INV :: "string \<Rightarrow> int option" where
  "OPCODES_INV = map_of (map (\<lambda>(k, v). (v, k)) OPCODES)"

subsection \<open>The constructor\<close>

definition TinyCPU_init :: cpu where
  "TinyCPU_init =
     \<lparr>mem = replicate (nat MEM_SIZE) 0, A = 0, B = 0, PC = 0, Z = False,
      running = True, output' = []\<rparr>"

subsection \<open>load_program\<close>

text \<open>
  \<open>str.upper\<close> on the ASCII letters; the mnemonics are taken to be ASCII strings.
  No other character of the model's 8-bit alphabet is mapped to an ASCII letter by
  Python's \<open>upper\<close>, so the table lookup is the same.
\<close>

definition upper_char :: "char \<Rightarrow> char" where
  "upper_char c =
     (let n = (of_char c :: nat) in if 97 \<le> n \<and> n \<le> 122 then char_of (n - 32) else c)"

definition upper :: "string \<Rightarrow> string" where
  "upper m = map upper_char m"

text \<open>
  An instruction is the tuple \<open>(mnemonic, operand)\<close> or the one-element tuple
  \<open>(mnemonic,)\<close>: the operand is \<open>None\<close> when the tuple has no second component.
\<close>

type_synonym instr = "string \<times> int option"

fun load_loop :: "instr list \<Rightarrow> int \<Rightarrow> cpu \<Rightarrow> (int \<times> cpu) result" where
  "load_loop [] addr s = Inr (addr, s)"
| "load_loop (instr # rest) addr s =
     (let op = upper (fst instr);
          arg = (case snd instr of Some a \<Rightarrow> a | None \<Rightarrow> 0)
      in case OPCODES_INV op of
           None \<Rightarrow> Inl (KeyError op, s)
         | Some opcode \<Rightarrow>
             (case mem_set s addr opcode of
                Inl e \<Rightarrow> Inl e
              | Inr s1 \<Rightarrow>
                  (let addr1 = addr + 1 in
                   case mem_set s1 addr1 (arg AND 0xFF) of
                     Inl e \<Rightarrow> Inl e
                   | Inr s2 \<Rightarrow>
                       (case mem_set s2 (addr1 + 1) (drop_bit 8 arg AND 0xFF) of
                          Inl e \<Rightarrow> Inl e
                        | Inr s3 \<Rightarrow> load_loop rest (addr1 + 2) s3))))"

definition load_program :: "instr list \<Rightarrow> cpu \<Rightarrow> cpu result" where
  "load_program program s =
     bindE (load_loop program 0 s) (\<lambda>(addr, s').
       case OPCODES_INV ''HLT'' of
         None \<Rightarrow> Inl (KeyError ''HLT'', s')
       | Some h \<Rightarrow> mem_set s' addr h)"

subsection \<open>fetch_operand and step\<close>

definition fetch_operand :: "cpu \<Rightarrow> (int \<times> cpu) result" where
  "fetch_operand s =
     bindE (mem_get s (PC s)) (\<lambda>lo.
     bindE (mem_get s ((PC s + 1) AND 0xFFFF)) (\<lambda>hi.
       let val = lo OR push_bit 8 hi in
       Inr (val, s\<lparr>PC := (PC s + 2) AND 0xFFFF\<rparr>)))"

definition step :: "cpu \<Rightarrow> cpu result" where
  "step s =
     bindE (mem_get s (PC s)) (\<lambda>opcode.
       let s = s\<lparr>PC := (PC s + 1) AND 0xFFFF\<rparr> in
       if OPCODES_INV ''LDA'' = Some opcode then
         bindE (fetch_operand s) (\<lambda>(v, s).
           let imm = v AND 0xFF; s = s\<lparr>A := imm\<rparr> in
           Inr (s\<lparr>Z := (A s = 0)\<rparr>))
       else if OPCODES_INV ''LDB'' = Some opcode then
         bindE (fetch_operand s) (\<lambda>(v, s).
           let imm = v AND 0xFF; s = s\<lparr>B := imm\<rparr> in
           Inr (s\<lparr>Z := (B s = 0)\<rparr>))
       else if OPCODES_INV ''LDA_MEM'' = Some opcode then
         bindE (fetch_operand s) (\<lambda>(addr, s).
           bindE (mem_get s addr) (\<lambda>v.
             let s = s\<lparr>A := v AND 0xFF\<rparr> in
             Inr (s\<lparr>Z := (A s = 0)\<rparr>)))
       else if OPCODES_INV ''STA'' = Some opcode then
         bindE (fetch_operand s) (\<lambda>(addr, s).
           mem_set s addr (A s AND 0xFF))
       else if OPCODES_INV ''ADD'' = Some opcode then
         (let sm = (A s + B s) AND 0xFF; s = s\<lparr>A := sm\<rparr> in
          Inr (s\<lparr>Z := (A s = 0)\<rparr>))
       else if OPCODES_INV ''SUB'' = Some opcode then
         (let sm = (A s - B s) AND 0xFF; s = s\<lparr>A := sm\<rparr> in
          Inr (s\<lparr>Z := (A s = 0)\<rparr>))
       else if OPCODES_INV ''JMP'' = Some opcode then
         bindE (fetch_operand s) (\<lambda>(addr, s).
           Inr (s\<lparr>PC := addr AND 0xFFFF\<rparr>))
       else if OPCODES_INV ''JZ'' = Some opcode then
         bindE (fetch_operand s) (\<lambda>(addr, s).
           if Z s then Inr (s\<lparr>PC := addr AND 0xFFFF\<rparr>) else Inr s)
       else if OPCODES_INV ''OUT'' = Some opcode then
         Inr (s\<lparr>output' := output' s @ [A s]\<rparr>)
       else if OPCODES_INV ''HLT'' = Some opcode then
         Inr (s\<lparr>running := False\<rparr>)
       else Inl (UnknownOpcode opcode (PC s - 1), s))"

subsection \<open>run\<close>

function run_loop :: "int \<Rightarrow> int \<Rightarrow> cpu \<Rightarrow> (int \<times> cpu) result" where
  "run_loop max_steps steps s =
     (if running s \<and> steps < max_steps then
        (case step s of
           Inl e \<Rightarrow> Inl e
         | Inr s' \<Rightarrow> run_loop max_steps (steps + 1) s')
      else Inr (steps, s))"
  by pat_completeness auto
termination
  by (relation "measure (\<lambda>(max_steps, steps, s). nat (max_steps - steps))") auto

definition run :: "int \<Rightarrow> cpu \<Rightarrow> cpu result" where
  "run max_steps s =
     bindE (run_loop max_steps 0 s) (\<lambda>(steps, s').
       if steps \<ge> max_steps then Inl (MaxStepsReached, s') else Inr s')"

definition default_max_steps :: int where
  "default_max_steps = 100000"

declare run_loop.simps [simp del]

section \<open>Observations used to state the properties\<close>

definition byte :: "int \<Rightarrow> bool" where
  "byte v \<longleftrightarrow> 0 \<le> v \<and> v < 256"

definition wf_cpu :: "cpu \<Rightarrow> bool" where
  "wf_cpu s \<longleftrightarrow>
     int (length (mem s)) = MEM_SIZE \<and> list_all byte (mem s) \<and> 0 \<le> PC s \<and> PC s < MEM_SIZE"

definition opcode_at :: "cpu \<Rightarrow> int" where
  "opcode_at s = mem s ! nat (PC s)"

definition operand_at :: "cpu \<Rightarrow> int" where
  "operand_at s =
     (let p = (PC s + 1) mod 65536 in
      mem s ! nat p + 256 * (mem s ! nat ((p + 1) mod 65536)))"

definition operand_of :: "instr \<Rightarrow> int" where
  "operand_of i = (case snd i of Some a \<Rightarrow> a | None \<Rightarrow> 0)"

definition known :: "instr \<Rightarrow> bool" where
  "known i \<longleftrightarrow> OPCODES_INV (upper (fst i)) \<noteq> None"

definition encode_instr :: "instr \<Rightarrow> int list" where
  "encode_instr i =
     (case OPCODES_INV (upper (fst i)) of
        None \<Rightarrow> []
      | Some c \<Rightarrow> [c, operand_of i mod 256, (operand_of i div 256) mod 256])"

definition encode :: "instr list \<Rightarrow> int list" where
  "encode p = concat (map encode_instr p)"

definition mnemonic_at :: "cpu \<Rightarrow> string option" where
  "mnemonic_at s = map_of OPCODES (opcode_at s)"

definition prog :: "instr list" where
  "prog = [(''LDA'', Some 7), (''LDB'', Some 5), (''ADD'', Some 0), (''OUT'', Some 0),
           (''HLT'', Some 0)]"

definition produced :: "cpu \<Rightarrow> cpu \<Rightarrow> int option" where
  "produced s s' =
     (if mnemonic_at s \<in> {Some ''LDA'', Some ''LDA_MEM'', Some ''ADD'', Some ''SUB''}
      then Some (A s')
      else if mnemonic_at s = Some ''LDB'' then Some (B s')
      else None)"

fun track :: "nat \<Rightarrow> cpu \<Rightarrow> int option \<Rightarrow> (cpu \<times> int option) result" where
  "track 0 s w = Inr (s, w)"
| "track (Suc n) s w =
     (case step s of
        Inl e \<Rightarrow> Inl e
      | Inr s' \<Rightarrow> track n s' (case produced s s' of Some v \<Rightarrow> Some v | None \<Rightarrow> w))"

definition flip_case :: "char \<Rightarrow> char" where
  "flip_case c =
     (let n = (of_char c :: nat) in
      if 97 \<le> n \<and> n \<le> 122 then char_of (n - 32)
      else if 65 \<le> n \<and> n \<le> 90 then char_of (n + 32)
      else c)"

definition case_variant :: "string \<Rightarrow> string \<Rightarrow> bool" where
  "case_variant m m' \<longleftrightarrow> list_all2 (\<lambda>c d. d = c \<or> d = flip_case c) m m'"

definition same_instr :: "instr \<Rightarrow> instr \<Rightarrow> bool" where
  "same_instr i j \<longleftrightarrow> case_variant (fst i) (fst j) \<and> snd j = snd i"

section \<open>Auxiliary facts\<close>

lemma inv_vals:
  "OPCODES_INV ''LDA'' = Some 1" "OPCODES_INV ''LDB'' = Some 2"
  "OPCODES_INV ''LDA_MEM'' = Some 3" "OPCODES_INV ''STA'' = Some 4"
  "OPCODES_INV ''ADD'' = Some 5" "OPCODES_INV ''SUB'' = Some 6"
  "OPCODES_INV ''JMP'' = Some 7" "OPCODES_INV ''JZ'' = Some 8"
  "OPCODES_INV ''OUT'' = Some 9" "OPCODES_INV ''HLT'' = Some 255"
  by (simp_all add: OPCODES_INV_def OPCODES_def)

lemma mask16: "(x::int) AND 0xFFFF = x mod 65536"
  using take_bit_eq_mask[of 16 x] by (simp add: mask_eq_exp_minus_1 take_bit_eq_mod)

lemma mask8: "(x::int) AND 0xFF = x mod 256"
  using take_bit_eq_mask[of 8 x] by (simp add: mask_eq_exp_minus_1 take_bit_eq_mod)

lemma or_shift:
  assumes "byte lo"
  shows "lo OR push_bit 8 hi = lo + 256 * hi"
proof -
  have lo: "take_bit 8 lo = lo"
    using assms by (simp add: byte_def take_bit_int_eq_self)
  have "take_bit 8 lo AND push_bit 8 hi = 0"
    by (rule bit_eqI) (auto simp: bit_simps)
  then have "take_bit 8 lo + push_bit 8 hi = take_bit 8 lo OR push_bit 8 hi"
    by (rule disjunctive_add_eq_or)
  then show ?thesis
    by (simp add: lo push_bit_eq_mult)
qed

lemma py_index_in_range:
  "0 \<le> i \<Longrightarrow> i < int (length xs) \<Longrightarrow> py_index xs i = Some (nat i)"
  by (simp add: py_index_def)

lemma py_index_above:
  "int (length xs) \<le> i \<Longrightarrow> py_index xs i = None"
  by (simp add: py_index_def)

lemma wf_byte_at:
  "wf_cpu s \<Longrightarrow> 0 \<le> i \<Longrightarrow> i < 65536 \<Longrightarrow> byte (mem s ! nat i)"
  by (simp add: wf_cpu_def MEM_SIZE_def list_all_length)

lemma mem_get_wf:
  "wf_cpu s \<Longrightarrow> 0 \<le> i \<Longrightarrow> i < 65536 \<Longrightarrow> mem_get s i = Inr (mem s ! nat i)"
  by (simp add: mem_get_def wf_cpu_def MEM_SIZE_def py_index_in_range)

lemma mem_get_PC_irrelevant:
  "mem_get (s\<lparr>PC := p\<rparr>) i = (case mem_get s i of Inl (e, t) \<Rightarrow> Inl (e, t\<lparr>PC := p\<rparr>) | Inr v \<Rightarrow> Inr v)"
  by (simp add: mem_get_def split: option.splits)

lemma operand_at_range:
  assumes "wf_cpu s"
  shows "0 \<le> operand_at s \<and> operand_at s < 65536"
proof -
  let ?p = "(PC s + 1) mod 65536"
  have "byte (mem s ! nat ?p)" "byte (mem s ! nat ((?p + 1) mod 65536))"
    using assms by (simp_all add: wf_byte_at)
  then show ?thesis
    by (simp add: operand_at_def Let_def byte_def)
qed

lemma fetch_operand_wf:
  assumes "wf_cpu s"
  shows "fetch_operand (s\<lparr>PC := (PC s + 1) AND 0xFFFF\<rparr>) =
           Inr (operand_at s, s\<lparr>PC := (PC s + 3) mod 65536\<rparr>)"
proof -
  let ?p = "(PC s + 1) mod 65536"
  let ?s1 = "s\<lparr>PC := ?p\<rparr>"
  have wf1: "wf_cpu ?s1"
    using assms by (simp add: wf_cpu_def MEM_SIZE_def)
  have lo: "mem_get ?s1 ?p = Inr (mem s ! nat ?p)"
    using mem_get_wf [OF wf1, of ?p] by simp
  have hi: "mem_get ?s1 ((?p + 1) mod 65536) = Inr (mem s ! nat ((?p + 1) mod 65536))"
    using mem_get_wf [OF wf1, of "(?p + 1) mod 65536"] by simp
  have b: "byte (mem s ! nat ?p)"
    using assms by (simp add: wf_byte_at)
  have pc: "(?p + 2) mod 65536 = (PC s + 3) mod 65536"
    by (simp add: mod_simps ac_simps)
  show ?thesis
    by (simp add: fetch_operand_def mask16 lo hi bindE_def or_shift [OF b] operand_at_def Let_def pc)
qed

lemma mem_set_wf:
  "wf_cpu s \<Longrightarrow> 0 \<le> i \<Longrightarrow> i < 65536 \<Longrightarrow>
   mem_set s i v = Inr (s\<lparr>mem := (mem s)[nat i := v]\<rparr>)"
  by (simp add: mem_set_def wf_cpu_def MEM_SIZE_def py_index_in_range)

lemma step_wf:
  assumes "wf_cpu s"
  shows "step s =
    (let opcode = opcode_at s;
         v = operand_at s;
         s1 = s\<lparr>PC := (PC s + 1) mod 65536\<rparr>;
         s2 = s\<lparr>PC := (PC s + 3) mod 65536\<rparr>
     in if opcode = 1 then Inr (s2\<lparr>A := v mod 256, Z := (v mod 256 = 0)\<rparr>)
        else if opcode = 2 then Inr (s2\<lparr>B := v mod 256, Z := (v mod 256 = 0)\<rparr>)
        else if opcode = 3 then
          Inr (s2\<lparr>A := mem s ! nat v, Z := (mem s ! nat v = 0)\<rparr>)
        else if opcode = 4 then Inr (s2\<lparr>mem := (mem s)[nat v := A s mod 256]\<rparr>)
        else if opcode = 5 then
          Inr (s1\<lparr>A := (A s + B s) mod 256, Z := ((A s + B s) mod 256 = 0)\<rparr>)
        else if opcode = 6 then
          Inr (s1\<lparr>A := (A s - B s) mod 256, Z := ((A s - B s) mod 256 = 0)\<rparr>)
        else if opcode = 7 then Inr (s\<lparr>PC := v\<rparr>)
        else if opcode = 8 then Inr (if Z s then s\<lparr>PC := v\<rparr> else s2)
        else if opcode = 9 then Inr (s1\<lparr>output' := output' s @ [A s]\<rparr>)
        else if opcode = 255 then Inr (s1\<lparr>running := False\<rparr>)
        else Inl (UnknownOpcode opcode ((PC s + 1) mod 65536 - 1), s1))"
proof -
  let ?s2 = "s\<lparr>PC := (PC s + 3) mod 65536\<rparr>"
  have pc: "0 \<le> PC s" "PC s < 65536"
    using assms by (simp_all add: wf_cpu_def MEM_SIZE_def)
  have op: "mem_get s (PC s) = Inr (opcode_at s)"
    using mem_get_wf [OF assms pc] by (simp add: opcode_at_def)
  have wf2: "wf_cpu ?s2"
    using assms by (simp add: wf_cpu_def MEM_SIZE_def)
  note v = operand_at_range [OF assms]
  have rd: "mem_get ?s2 (operand_at s) = Inr (mem s ! nat (operand_at s))"
    using mem_get_wf [OF wf2, of "operand_at s"] v by simp
  have wr: "mem_set ?s2 (operand_at s) x = Inr (?s2\<lparr>mem := (mem s)[nat (operand_at s) := x]\<rparr>)" for x
    using mem_set_wf [OF wf2, of "operand_at s"] v by simp
  have b: "mem s ! nat (operand_at s) mod 256 = mem s ! nat (operand_at s)"
    using wf_byte_at [OF assms, of "operand_at s"] v by (simp add: byte_def)
  have vm: "operand_at s mod 65536 = operand_at s"
    using v by simp
  show ?thesis
    by (simp add: step_def op bindE_def inv_vals fetch_operand_wf [OF assms, unfolded mask16]
        Let_def mask8 mask16 rd wr b vm)
qed

lemma hi_byte: "drop_bit 8 (a::int) AND 0xFF = (a div 256) mod 256"
  by (simp add: mask8 drop_bit_eq_div)

lemma length_encode: "list_all known p \<Longrightarrow> length (encode p) = 3 * length p"
  by (induction p) (auto simp: encode_def encode_instr_def known_def)

lemma upd3_take:
  "k + 3 \<le> length m \<Longrightarrow> take (k + 3) (m[k := a, Suc k := b, Suc (Suc k) := c]) = take k m @ [a, b, c]"
  by (simp add: list_eq_iff_nth_eq nth_append nth_list_update less_Suc_eq)

lemma load_loop_unfold:
  assumes "int (length (mem s)) = MEM_SIZE" "OPCODES_INV (upper (fst i)) = Some c"
    and "k + 3 \<le> 65536"
  shows "load_loop (i # rest) (int k) s =
           load_loop rest (int (k + 3))
             (s\<lparr>mem := (mem s)[k := c, Suc k := operand_of i mod 256,
                                Suc (Suc k) := (operand_of i div 256) mod 256]\<rparr>)"
  using assms
  by (simp add: mem_set_def py_index_def MEM_SIZE_def Let_def mask8 drop_bit_eq_div operand_of_def
      nat_add_distrib add.commute)

lemma load_loop_ok:
  assumes "int (length (mem s)) = MEM_SIZE" "list_all known p" "k + 3 * length p \<le> 65536"
  shows "load_loop p (int k) s =
           Inr (int (k + 3 * length p),
                s\<lparr>mem := take k (mem s) @ encode p @ drop (k + 3 * length p) (mem s)\<rparr>)"
  using assms
proof (induction p arbitrary: k s)
  case Nil
  then show ?case by (simp add: encode_def)
next
  case (Cons i rest)
  from Cons.prems(2) obtain c where c: "OPCODES_INV (upper (fst i)) = Some c"
    by (auto simp: known_def)
  let ?m = "(mem s)[k := c, Suc k := operand_of i mod 256,
                    Suc (Suc k) := (operand_of i div 256) mod 256]"
  let ?s3 = "s\<lparr>mem := ?m\<rparr>"
  have k3: "k + 3 \<le> 65536" using Cons.prems(3) by simp
  have len: "length (mem s) = 65536" using Cons.prems(1) by (simp add: MEM_SIZE_def)
  have unf: "load_loop (i # rest) (int k) s = load_loop rest (int (k + 3)) ?s3"
    by (rule load_loop_unfold [OF Cons.prems(1) c k3])
  have ih: "load_loop rest (int (k + 3)) ?s3 =
          Inr (int (k + 3 + 3 * length rest),
               ?s3\<lparr>mem := take (k + 3) (mem ?s3) @ encode rest @
                              drop (k + 3 + 3 * length rest) (mem ?s3)\<rparr>)"
    using Cons.prems by (intro Cons.IH) simp_all
  have tk: "take (k + 3) ?m = take k (mem s) @ encode_instr i"
    using upd3_take [of k "mem s"] k3 len by (simp add: encode_instr_def c)
  have dr: "drop (k + 3 + 3 * length rest) ?m = drop (k + 3 + 3 * length rest) (mem s)"
    by simp
  have n: "k + 3 + 3 * length rest = k + 3 * length (i # rest)"
    by simp
  have e: "encode (i # rest) = encode_instr i @ encode rest"
    by (simp add: encode_def)
  show ?case
    unfolding n [symmetric] e unf ih by (simp add: tk dr)
qed

lemma load_loop_append:
  "load_loop (pre @ rest) addr s =
     (case load_loop pre addr s of
        Inl e \<Rightarrow> Inl e
      | Inr (addr', s') \<Rightarrow> load_loop rest addr' s')"
  by (induction pre arbitrary: addr s)
     (simp_all add: Let_def split: option.splits sum.splits)

lemma load_loop_overflow:
  assumes "int (length (mem s)) = MEM_SIZE" "list_all known p" "k \<le> 65536"
    and "65536 < k + 3 * length p"
  shows "raised (load_loop p (int k) s) = Some IndexError"
  using assms
proof (induction p arbitrary: k s)
  case Nil
  then show ?case by simp
next
  case (Cons i rest)
  from Cons.prems(2) obtain c where c: "OPCODES_INV (upper (fst i)) = Some c"
    by (auto simp: known_def)
  have len: "length (mem s) = 65536" using Cons.prems(1) by (simp add: MEM_SIZE_def)
  show ?case
  proof (cases "k + 3 \<le> 65536")
    case True
    let ?s3 = "s\<lparr>mem := (mem s)[k := c, Suc k := operand_of i mod 256,
                                Suc (Suc k) := (operand_of i div 256) mod 256]\<rparr>"
    have unf: "load_loop (i # rest) (int k) s = load_loop rest (int (k + 3)) ?s3"
      by (rule load_loop_unfold [OF Cons.prems(1) c True])
    have "raised (load_loop rest (int (k + 3)) ?s3) = Some IndexError"
      using Cons.prems True by (intro Cons.IH) simp_all
    then show ?thesis
      unfolding unf .
  next
    case False
    then have "k = 65534 \<or> k = 65535 \<or> k = 65536"
      using Cons.prems(3) by arith
    then show ?thesis
      using len c
      by (auto simp: raised_def mem_set_def py_index_def Let_def)
  qed
qed

lemma load_program_ok:
  assumes "int (length (mem s)) = MEM_SIZE" "list_all known p" "3 * length p + 1 \<le> 65536"
  shows "load_program p s =
           Inr (s\<lparr>mem := encode p @ 255 # drop (3 * length p + 1) (mem s)\<rparr>)"
proof -
  have len: "length (mem s) = 65536" using assms(1) by (simp add: MEM_SIZE_def)
  have ll: "load_loop p 0 s =
        Inr (int (3 * length p), s\<lparr>mem := encode p @ drop (3 * length p) (mem s)\<rparr>)"
    using load_loop_ok [OF assms(1,2), of 0] assms(3) by simp
  have le: "length (encode p) = 3 * length p"
    by (rule length_encode [OF assms(2)])
  have up: "(encode p @ drop (3 * length p) (mem s))[3 * length p := v] =
        encode p @ v # drop (3 * length p + 1) (mem s)" for v
    using le len assms(3)
    by (simp add: list_update_append upd_conv_take_nth_drop)
  have ix: "py_index (encode p @ drop (3 * length p) (mem s)) (int (3 * length p)) =
        Some (3 * length p)"
    using le len assms(3) by (simp add: py_index_def)
  show ?thesis
    unfolding load_program_def ll
    by (simp add: bindE_def inv_vals mem_set_def ix up del: of_nat_mult)
qed

lemma load_program_overflow:
  assumes "int (length (mem s)) = MEM_SIZE" "list_all known pre" "65536 < 3 * length pre + 1"
  shows "raised (load_program (pre @ rest) s) = Some IndexError"
proof -
  have "65536 < 0 + 3 * length pre"
    using assms(3) by presburger
  then have "raised (load_loop pre (int 0) s) = Some IndexError"
    using assms by (intro load_loop_overflow) simp_all
  then show ?thesis
    by (auto simp: load_program_def load_loop_append bindE_def raised_def split: sum.splits)
qed

lemma load_program_unknown:
  assumes "int (length (mem s)) = MEM_SIZE" "list_all known pre" "3 * length pre \<le> 65536"
    and "OPCODES_INV (upper (fst i)) = None"
  shows "load_program (pre @ i # post) s =
           Inl (KeyError (upper (fst i)),
                s\<lparr>mem := encode pre @ drop (3 * length pre) (mem s)\<rparr>)"
proof -
  have ll: "load_loop pre 0 s =
        Inr (int (3 * length pre), s\<lparr>mem := encode pre @ drop (3 * length pre) (mem s)\<rparr>)"
    using load_loop_ok [OF assms(1,2), of 0] assms(3) by simp
  show ?thesis
    by (simp add: load_program_def load_loop_append ll bindE_def assms(4) Let_def)
qed

lemma mnemonic_at_simps:
  "mnemonic_at s = Some ''LDA'' \<longleftrightarrow> opcode_at s = 1"
  "mnemonic_at s = Some ''LDB'' \<longleftrightarrow> opcode_at s = 2"
  "mnemonic_at s = Some ''LDA_MEM'' \<longleftrightarrow> opcode_at s = 3"
  "mnemonic_at s = Some ''STA'' \<longleftrightarrow> opcode_at s = 4"
  "mnemonic_at s = Some ''ADD'' \<longleftrightarrow> opcode_at s = 5"
  "mnemonic_at s = Some ''SUB'' \<longleftrightarrow> opcode_at s = 6"
  "mnemonic_at s = Some ''JMP'' \<longleftrightarrow> opcode_at s = 7"
  "mnemonic_at s = Some ''JZ'' \<longleftrightarrow> opcode_at s = 8"
  "mnemonic_at s = Some ''OUT'' \<longleftrightarrow> opcode_at s = 9"
  "mnemonic_at s = Some ''HLT'' \<longleftrightarrow> opcode_at s = 255"
  by (simp_all add: mnemonic_at_def OPCODES_def)

lemma mnemonic_at_None:
  "mnemonic_at s = None \<longleftrightarrow> opcode_at s \<notin> {1, 2, 3, 4, 5, 6, 7, 8, 9, 255}"
  by (simp add: mnemonic_at_def OPCODES_def)

lemma opcode_byte: "OPCODES_INV x = Some c \<Longrightarrow> byte c"
  by (auto simp: OPCODES_INV_def OPCODES_def byte_def split: if_splits)

lemma list_all_update: "list_all P xs \<Longrightarrow> P v \<Longrightarrow> list_all P (xs[k := v])"
  using set_update_subset_insert [of xs k v] by (auto simp: list_all_iff)

lemma wf_init: "wf_cpu TinyCPU_init"
  by (simp add: wf_cpu_def TinyCPU_init_def MEM_SIZE_def list_all_iff byte_def)

lemma mem_set_keeps_wf:
  "wf_cpu s \<Longrightarrow> byte v \<Longrightarrow> mem_set s i v = Inr s' \<Longrightarrow>
   wf_cpu s' \<and> s' = s\<lparr>mem := mem s'\<rparr>"
  by (auto simp: mem_set_def wf_cpu_def list_all_update split: option.splits)

lemma byte_mod: "byte (x mod 256)"
  by (simp add: byte_def)

lemma load_loop_keeps_wf:
  "wf_cpu s \<Longrightarrow> load_loop p addr s = Inr (addr', s') \<Longrightarrow>
   wf_cpu s' \<and> s' = s\<lparr>mem := mem s'\<rparr>"
proof (induction p arbitrary: addr s)
  case Nil
  then show ?case by simp
next
  case (Cons i rest)
  from Cons.prems(2) obtain c s1 s2 s3 where
    c: "OPCODES_INV (upper (fst i)) = Some c"
    and s1: "mem_set s addr c = Inr s1"
    and s2: "mem_set s1 (addr + 1) (operand_of i mod 256) = Inr s2"
    and s3: "mem_set s2 (addr + 1 + 1) ((operand_of i div 256) mod 256) = Inr s3"
    and r: "load_loop rest (addr + 1 + 2) s3 = Inr (addr', s')"
    by (auto simp: Let_def mask8 drop_bit_eq_div operand_of_def split: option.splits sum.splits)
  note w1 = mem_set_keeps_wf [OF Cons.prems(1) opcode_byte [OF c] s1]
  note w2 = mem_set_keeps_wf [OF conjunct1 [OF w1] byte_mod s2]
  note w3 = mem_set_keeps_wf [OF conjunct1 [OF w2] byte_mod s3]
  note w4 = Cons.IH [OF conjunct1 [OF w3] r]
  have "s' = s\<lparr>mem := mem s'\<rparr>"
    using w1 w2 w3 w4 by (metis cpu.update_convs(1) cpu.surjective cpu.select_convs)
  then show ?case using w4 by simp
qed

lemma wf_cpu_updates [simp]:
  "wf_cpu (s\<lparr>A := a\<rparr>) = wf_cpu s"
  "wf_cpu (s\<lparr>B := b\<rparr>) = wf_cpu s"
  "wf_cpu (s\<lparr>Z := z\<rparr>) = wf_cpu s"
  "wf_cpu (s\<lparr>running := r\<rparr>) = wf_cpu s"
  "wf_cpu (s\<lparr>output' := out\<rparr>) = wf_cpu s"
  by (simp_all add: wf_cpu_def)

lemma wf_cpu_PC: "wf_cpu s \<Longrightarrow> 0 \<le> p \<Longrightarrow> p < 65536 \<Longrightarrow> wf_cpu (s\<lparr>PC := p\<rparr>)"
  by (simp add: wf_cpu_def MEM_SIZE_def)

lemma wf_cpu_PC_mod: "wf_cpu s \<Longrightarrow> wf_cpu (s\<lparr>PC := p mod 65536\<rparr>)"
  by (simp add: wf_cpu_PC)

lemma wf_cpu_mem: "wf_cpu s \<Longrightarrow> byte v \<Longrightarrow> wf_cpu (s\<lparr>mem := (mem s)[k := v]\<rparr>)"
  by (simp add: wf_cpu_def list_all_update)

lemma step_keeps_wf:
  assumes "wf_cpu s"
  shows "case step s of Inr s' \<Rightarrow> wf_cpu s' | Inl (e, s') \<Rightarrow> wf_cpu s' \<and> e \<noteq> IndexError"
proof -
  note v = operand_at_range [OF assms]
  have j: "wf_cpu (s\<lparr>PC := operand_at s\<rparr>)"
    using assms v by (simp add: wf_cpu_PC)
  have m: "wf_cpu (s\<lparr>PC := (PC s + 3) mod 65536, mem := (mem s)[k := A s mod 256]\<rparr>)" for k
    using wf_cpu_mem [OF wf_cpu_PC_mod [OF assms, of "PC s + 3"] byte_mod, of k "A s"] by simp
  show ?thesis
    by (simp add: step_wf [OF assms] Let_def wf_cpu_PC_mod [OF assms] j m)
qed

lemma step_Inr_wf: "wf_cpu s \<Longrightarrow> step s = Inr s' \<Longrightarrow> wf_cpu s'"
  using step_keeps_wf [of s] by simp

lemma step_Inl_wf: "wf_cpu s \<Longrightarrow> step s = Inl (e, s') \<Longrightarrow> wf_cpu s' \<and> e \<noteq> IndexError"
  using step_keeps_wf [of s] by simp

lemma run_loop_stop:
  "\<not> (running s \<and> steps < max_steps) \<Longrightarrow> run_loop max_steps steps s = Inr (steps, s)"
  by (subst run_loop.simps) auto

lemma run_loop_step:
  "running s \<Longrightarrow> steps < max_steps \<Longrightarrow>
   run_loop max_steps steps s =
     (case step s of Inl e \<Rightarrow> Inl e | Inr s' \<Rightarrow> run_loop max_steps (steps + 1) s')"
  by (subst run_loop.simps) simp

lemma run_loop_keeps_wf:
  "wf_cpu s \<Longrightarrow>
   (case run_loop max_steps steps s of
      Inr (n, s') \<Rightarrow> wf_cpu s'
    | Inl (e, s') \<Rightarrow> wf_cpu s' \<and> e \<noteq> IndexError)"
proof (induction max_steps steps s rule: run_loop.induct)
  case (1 max_steps steps s)
  show ?case
  proof (cases "running s \<and> steps < max_steps")
    case False
    then show ?thesis
      using "1.prems" by (simp add: run_loop_stop)
  next
    case True
    then have r: "running s" and lt: "steps < max_steps" by simp_all
    show ?thesis
    proof (cases "step s")
      case (Inl a)
      obtain e t where a: "a = (e, t)" by (cases a)
      show ?thesis
        using Inl a step_Inl_wf [OF "1.prems", of e t]
        by (simp add: run_loop_step [OF r lt])
    next
      case (Inr t)
      have "wf_cpu t"
        using step_Inr_wf [OF "1.prems" Inr] .
      then show ?thesis
        using "1.IH" [OF True Inr] Inr
        by (simp add: run_loop_step [OF r lt])
    qed
  qed
qed

lemma run_no_index:
  assumes "wf_cpu s"
  shows "raised (run max_steps s) \<noteq> Some IndexError"
proof (cases "run_loop max_steps 0 s")
  case (Inl a)
  obtain e t where a: "a = (e, t)" by (cases a)
  show ?thesis
    using run_loop_keeps_wf [OF assms, of max_steps 0] Inl a
    by (simp add: run_def bindE_def raised_def)
next
  case (Inr b)
  obtain n t where b: "b = (n, t)" by (cases b)
  show ?thesis
    using Inr b by (simp add: run_def bindE_def raised_def)
qed

lemma run_loop_fixpoint:
  "step s = Inr s \<Longrightarrow> running s \<Longrightarrow>
   run_loop max_steps steps s = Inr (max steps max_steps, s)"
proof (induction max_steps steps s rule: run_loop.induct)
  case (1 max_steps steps s)
  show ?case
  proof (cases "steps < max_steps")
    case True
    have "run_loop max_steps (steps + 1) s = Inr (max (steps + 1) max_steps, s)"
      using "1.IH" [of s] "1.prems" True by simp
    then show ?thesis
      using True "1.prems" by (simp add: run_loop_step)
  next
    case False
    then show ?thesis
      by (simp add: run_loop_stop)
  qed
qed

lemma load_program_keeps_wf:
  assumes "wf_cpu s" "load_program p s = Inr s'"
  shows "wf_cpu s'"
proof -
  from assms(2) obtain addr t where
    ll: "load_loop p 0 s = Inr (addr, t)" and ms: "mem_set t addr 255 = Inr s'"
    by (auto simp: load_program_def bindE_def inv_vals split: sum.splits)
  have "wf_cpu t"
    using load_loop_keeps_wf [OF assms(1) ll] by simp
  then show ?thesis
    using mem_set_keeps_wf [OF _ _ ms] by (simp add: byte_def)
qed

lemma run_loop_Inr:
  "running s \<Longrightarrow> steps < max_steps \<Longrightarrow> step s = Inr s' \<Longrightarrow>
   run_loop max_steps steps s = run_loop max_steps (steps + 1) s'"
  by (simp add: run_loop_step)

lemma run_loop_Inl:
  "running s \<Longrightarrow> steps < max_steps \<Longrightarrow> step s = Inl e \<Longrightarrow>
   run_loop max_steps steps s = Inl e"
  by (simp add: run_loop_step)

lemma upper_table [simp]:
  "upper ''LDA'' = ''LDA''" "upper ''LDB'' = ''LDB''" "upper ''LDA_MEM'' = ''LDA_MEM''"
  "upper ''STA'' = ''STA''" "upper ''ADD'' = ''ADD''" "upper ''SUB'' = ''SUB''"
  "upper ''JMP'' = ''JMP''" "upper ''JZ'' = ''JZ''" "upper ''OUT'' = ''OUT''"
  "upper ''HLT'' = ''HLT''"
  by (simp_all add: upper_def upper_char_def)

lemma init_length: "int (length (mem TinyCPU_init)) = MEM_SIZE"
  by (simp add: TinyCPU_init_def MEM_SIZE_def)

lemma PC_init [simp]: "PC TinyCPU_init = 0"
  by (simp add: TinyCPU_init_def)

lemma running_init [simp]: "running TinyCPU_init"
  by (simp add: TinyCPU_init_def)

lemma jmp_self_loaded:
  "load_program [(''JMP'', Some 0)] TinyCPU_init =
     Inr (TinyCPU_init\<lparr>mem := 7 # 0 # 0 # 255 # replicate 65532 0\<rparr>)"
proof -
  have k: "list_all known [(''JMP'', Some 0)]"
    by (simp add: known_def inv_vals)
  have e: "encode [(''JMP'', Some 0)] = [7, 0, 0]"
    by (simp add: encode_def encode_instr_def operand_of_def inv_vals)
  have d: "drop (3 * length [(''JMP'', Some (0::int))] + 1) (mem TinyCPU_init) = replicate 65532 0"
    by (simp add: TinyCPU_init_def MEM_SIZE_def)
  have "load_program [(''JMP'', Some 0)] TinyCPU_init =
      Inr (TinyCPU_init\<lparr>mem := encode [(''JMP'', Some 0)] @
             255 # drop (3 * length [(''JMP'', Some (0::int))] + 1) (mem TinyCPU_init)\<rparr>)"
    by (rule load_program_ok [OF init_length k]) simp
  then show ?thesis
    unfolding e d by simp
qed

lemma init_fields [simp]:
  "A TinyCPU_init = 0" "B TinyCPU_init = 0" "Z TinyCPU_init = False"
  "output' TinyCPU_init = []"
  by (simp_all add: TinyCPU_init_def)

lemma load_program_init:
  assumes "list_all known p" "3 * length p + 1 \<le> 65536"
  shows "load_program p TinyCPU_init =
           Inr (TinyCPU_init\<lparr>mem := encode p @ 255 # replicate (65535 - 3 * length p) 0\<rparr>)"
proof -
  have d: "drop (3 * length p + 1) (mem TinyCPU_init) = replicate (65535 - 3 * length p) 0"
    by (simp add: TinyCPU_init_def MEM_SIZE_def)
  show ?thesis
    using load_program_ok [OF init_length assms] unfolding d .
qed

lemma prog_loaded:
  "load_program prog TinyCPU_init =
     Inr (TinyCPU_init\<lparr>mem := 1 # 7 # 0 # 2 # 5 # 0 # 5 # 0 # 0 # 9 # 0 # 0 # 255 # 0 # 0 #
                                 255 # replicate 65520 0\<rparr>)"
proof -
  have k: "list_all known prog"
    by (simp add: prog_def known_def inv_vals)
  have e: "encode prog = [1, 7, 0, 2, 5, 0, 5, 0, 0, 9, 0, 0, 255, 0, 0]"
    by (simp add: prog_def encode_def encode_instr_def operand_of_def inv_vals)
  have n: "65535 - 3 * length prog = 65520"
    by (simp add: prog_def)
  have "3 * length prog + 1 \<le> 65536"
    by (simp add: prog_def)
  from load_program_init [OF k this] show ?thesis
    unfolding e n by simp
qed

lemma hlt_loaded:
  "load_program [(''HLT'', Some 0)] TinyCPU_init =
     Inr (TinyCPU_init\<lparr>mem := 255 # 0 # 0 # 255 # replicate 65532 0\<rparr>)"
proof -
  have k: "list_all known [(''HLT'', Some 0)]"
    by (simp add: known_def inv_vals)
  have e: "encode [(''HLT'', Some 0)] = [255, 0, 0]"
    by (simp add: encode_def encode_instr_def operand_of_def inv_vals)
  have n: "65535 - 3 * length [(''HLT'', Some (0::int))] = 65532"
    by simp
  have "3 * length [(''HLT'', Some (0::int))] + 1 \<le> 65536"
    by simp
  from load_program_init [OF k this] show ?thesis
    unfolding e n by simp
qed

lemma jmp_top_loaded:
  "load_program [(''JMP'', Some 65535)] TinyCPU_init =
     Inr (TinyCPU_init\<lparr>mem := 7 # 255 # 255 # 255 # replicate 65532 0\<rparr>)"
proof -
  have k: "list_all known [(''JMP'', Some 65535)]"
    by (simp add: known_def inv_vals)
  have e: "encode [(''JMP'', Some 65535)] = [7, 255, 255]"
    by (simp add: encode_def encode_instr_def operand_of_def inv_vals)
  have n: "65535 - 3 * length [(''JMP'', Some (65535::int))] = 65532"
    by simp
  have "3 * length [(''JMP'', Some (65535::int))] + 1 \<le> 65536"
    by simp
  from load_program_init [OF k this] show ?thesis
    unfolding e n by simp
qed

lemma step_Z:
  assumes "wf_cpu s" "step s = Inr s'"
  shows "case produced s s' of Some v \<Rightarrow> Z s' = (v = 0) | None \<Rightarrow> Z s' = Z s"
  using assms(2) unfolding step_wf [OF assms(1)] Let_def
  by (auto simp: produced_def mnemonic_at_simps split: if_splits)

lemma step_Z_unchanged:
  assumes "wf_cpu s" "step s = Inr s'"
    and "mnemonic_at s \<in> {Some ''STA'', Some ''JMP'', Some ''JZ'', Some ''OUT'', Some ''HLT''}"
  shows "Z s' = Z s"
  using assms(2,3) unfolding step_wf [OF assms(1)] Let_def
  by (auto simp: mnemonic_at_simps split: if_splits)

lemma track_invariant:
  "wf_cpu s0 \<Longrightarrow> Z s0 = (w0 = Some 0) \<Longrightarrow> track n s0 w0 = Inr (s, w) \<Longrightarrow>
   wf_cpu s \<and> Z s = (w = Some 0)"
proof (induction n arbitrary: s0 w0)
  case 0
  then show ?case by simp
next
  case (Suc n)
  from Suc.prems(3) obtain s1 where
    st: "step s0 = Inr s1"
    and tr: "track n s1 (case produced s0 s1 of Some v \<Rightarrow> Some v | None \<Rightarrow> w0) = Inr (s, w)"
    by (auto split: sum.splits)
  have wf1: "wf_cpu s1"
    using step_Inr_wf [OF Suc.prems(1) st] .
  have z1: "Z s1 = ((case produced s0 s1 of Some v \<Rightarrow> Some v | None \<Rightarrow> w0) = Some 0)"
    using step_Z [OF Suc.prems(1) st] Suc.prems(2) by (simp split: option.splits)
  show ?case
    using Suc.IH [OF wf1 z1 tr] .
qed

lemma lda0_loaded:
  "load_program [(''LDA'', Some 0)] TinyCPU_init =
     Inr (TinyCPU_init\<lparr>mem := 1 # 0 # 0 # 255 # replicate 65532 0\<rparr>)"
proof -
  have k: "list_all known [(''LDA'', Some 0)]"
    by (simp add: known_def inv_vals)
  have e: "encode [(''LDA'', Some 0)] = [1, 0, 0]"
    by (simp add: encode_def encode_instr_def operand_of_def inv_vals)
  have n: "65535 - 3 * length [(''LDA'', Some (0::int))] = 65532"
    by simp
  have "3 * length [(''LDA'', Some (0::int))] + 1 \<le> 65536"
    by simp
  from load_program_init [OF k this] show ?thesis
    unfolding e n by simp
qed

lemma encode_Cons: "encode (i # rest) = encode_instr i @ encode rest"
  by (simp add: encode_def)

lemma length_encode_instr: "known i \<Longrightarrow> length (encode_instr i) = 3"
  by (auto simp: encode_instr_def known_def)

lemma encode_at:
  "list_all known p \<Longrightarrow> k < length p \<Longrightarrow> take 3 (drop (3 * k) (encode p)) = encode_instr (p ! k)"
proof (induction p arbitrary: k)
  case Nil
  then show ?case by simp
next
  case (Cons i rest)
  have l: "length (encode_instr i) = 3"
    using Cons.prems(1) by (simp add: length_encode_instr)
  show ?case
  proof (cases k)
    case 0
    then show ?thesis by (simp add: encode_Cons l)
  next
    case (Suc j)
    have "drop (3 * k) (encode (i # rest)) = drop (3 * j) (encode rest)"
      unfolding encode_Cons Suc by (simp add: l)
    then show ?thesis
      using Cons.IH [of j] Cons.prems Suc by simp
  qed
qed

lemma known_replicate: "known i \<Longrightarrow> list_all known (replicate n i)"
  by (simp add: list_all_iff)

lemma known_HLT: "known (''HLT'', Some 0)"
  by (simp add: known_def inv_vals)

lemma known_ADD: "known (''ADD'', None)"
  by (simp add: known_def inv_vals)

lemma unknown_NOP: "OPCODES_INV (upper ''NOP'') = None"
  by (simp add: upper_def upper_char_def OPCODES_INV_def OPCODES_def)

lemma wf_length: "wf_cpu s \<Longrightarrow> int (length (mem s)) = MEM_SIZE"
  by (simp add: wf_cpu_def)

lemma step_no_index: "wf_cpu s \<Longrightarrow> raised (step s) \<noteq> Some IndexError"
  using step_keeps_wf [of s] by (auto simp: raised_def split: sum.splits)

lemma upper_flip: "upper_char (flip_case c) = upper_char c"
proof -
  have a: "of_char (char_of (of_char c - 32 :: nat)) = (of_char c - 32 :: nat)"
    if "97 \<le> (of_char c :: nat)" "(of_char c :: nat) \<le> 122"
    using that by (simp add: of_char_of)
  have b: "of_char (char_of (of_char c + 32 :: nat)) = (of_char c + 32 :: nat)"
    if "65 \<le> (of_char c :: nat)" "(of_char c :: nat) \<le> 90"
    using that by (simp add: of_char_of)
  show ?thesis
    by (auto simp: upper_char_def flip_case_def Let_def a b)
qed

lemma upper_variant: "case_variant m m' \<Longrightarrow> upper m' = upper m"
  unfolding case_variant_def upper_def
  by (induction rule: list_all2_induct) (auto simp: upper_flip)

lemma load_loop_variant:
  "list_all2 same_instr p q \<Longrightarrow> load_loop q addr s = load_loop p addr s"
proof (induction arbitrary: addr s rule: list_all2_induct)
  case Nil
  then show ?case by simp
next
  case (Cons i p j q)
  have u: "upper (fst j) = upper (fst i)" and a: "snd j = snd i"
    using Cons.hyps(1) by (simp_all add: same_instr_def upper_variant)
  show ?case
    by (simp add: u a Cons.IH Let_def split: option.splits sum.splits)
qed

lemma fetch_operand_direct:
  assumes "wf_cpu s"
  shows "fetch_operand s =
           Inr (mem s ! nat (PC s) + 256 * (mem s ! nat ((PC s + 1) mod 65536)),
                s\<lparr>PC := (PC s + 2) mod 65536\<rparr>)"
proof -
  have p: "0 \<le> PC s" "PC s < 65536"
    using assms by (simp_all add: wf_cpu_def MEM_SIZE_def)
  have lo: "mem_get s (PC s) = Inr (mem s ! nat (PC s))"
    using mem_get_wf [OF assms p] .
  have hi: "mem_get s ((PC s + 1) mod 65536) = Inr (mem s ! nat ((PC s + 1) mod 65536))"
    using mem_get_wf [OF assms, of "(PC s + 1) mod 65536"] by simp
  have b: "byte (mem s ! nat (PC s))"
    using wf_byte_at [OF assms p] .
  show ?thesis
    unfolding fetch_operand_def mask16 lo hi
    by (simp add: bindE_def Let_def or_shift [OF b])
qed

lemma upper_upper: "upper (upper m) = upper m"
proof -
  have a: "of_char (char_of (of_char c - 32 :: nat)) = (of_char c - 32 :: nat)"
    if "97 \<le> (of_char c :: nat)" "(of_char c :: nat) \<le> 122" for c
    using that by (simp add: of_char_of)
  have "upper_char (upper_char c) = upper_char c" for c
    by (auto simp: upper_char_def Let_def a)
  then show ?thesis
    by (simp add: upper_def)
qed

lemma load_loop_upper:
  "load_loop (map (\<lambda>i. (upper (fst i), snd i)) p) addr s = load_loop p addr s"
  by (induction p arbitrary: addr s)
     (simp_all add: upper_upper Let_def split: option.splits sum.splits)

lemma lda_hlt_loaded:
  "load_program [(''LDA'', Some 7), (''HLT'', Some 0)] TinyCPU_init =
     Inr (TinyCPU_init\<lparr>mem := 1 # 7 # 0 # 255 # 0 # 0 # 255 # replicate 65529 0\<rparr>)"
proof -
  have k: "list_all known [(''LDA'', Some 7), (''HLT'', Some 0)]"
    by (simp add: known_def inv_vals)
  have e: "encode [(''LDA'', Some 7), (''HLT'', Some 0)] = [1, 7, 0, 255, 0, 0]"
    by (simp add: encode_def encode_instr_def operand_of_def inv_vals)
  have n: "65535 - 3 * length [(''LDA'', Some (7::int)), (''HLT'', Some 0)] = 65529"
    by simp
  have "3 * length [(''LDA'', Some (7::int)), (''HLT'', Some 0)] + 1 \<le> 65536"
    by simp
  from load_program_init [OF k this] show ?thesis
    unfolding e n by simp
qed

section \<open>The properties\<close>

text \<open>
  C8. The program whose only instruction is \<open>JMP 0\<close>, a jump to its own address, never
  halts: \<open>run\<close> with the default budget of 100000 steps raises the step-budget
  failure, and the engine is still running at the raise.
\<close>

theorem jmp_self_exceeds_budget:
  "raised (bindE (load_program [(''JMP'', Some 0)] TinyCPU_init) (run default_max_steps)) =
     Some MaxStepsReached \<and>
   map_option running
     (state_at_raise (bindE (load_program [(''JMP'', Some 0)] TinyCPU_init) (run default_max_steps))) =
     Some True"
proof -
  let ?s = "TinyCPU_init\<lparr>mem := 7 # 0 # 0 # 255 # replicate 65532 0\<rparr>"
  have wf: "wf_cpu ?s"
    using load_program_keeps_wf [OF wf_init jmp_self_loaded] .
  have r: "running ?s"
    by simp
  have op: "opcode_at ?s = 7" and v: "operand_at ?s = 0"
    by (simp_all add: opcode_at_def operand_at_def)
  have "?s\<lparr>PC := 0\<rparr> = ?s"
    by (simp add: TinyCPU_init_def)
  then have st: "step ?s = Inr ?s"
    by (simp add: step_wf [OF wf] op v Let_def)
  have "run_loop default_max_steps 0 ?s = Inr (max 0 default_max_steps, ?s)"
    by (rule run_loop_fixpoint [OF st r])
  then show ?thesis
    by (simp add: jmp_self_loaded bindE_def run_def default_max_steps_def raised_def
        state_at_raise_def)
qed

text \<open>
  C1. The source's own demonstration, \<open>prog = [LDA 7, LDB 5, ADD, OUT, HLT]\<close> loaded into
  a fresh CPU and run with the default budget, does not output \<open>[12]\<close>: the loader gives
  every instruction three bytes, \<open>step\<close> consumes one byte for \<open>ADD\<close>, so the fourth step
  fetches the padding byte 0 at address 7 and raises the decode failure; the output is
  still empty at the raise.
\<close>

theorem prog_decode_failure:
  "raised (bindE (load_program prog TinyCPU_init) (run default_max_steps)) =
     Some (UnknownOpcode 0 7) \<and>
   map_option output'
     (state_at_raise (bindE (load_program prog TinyCPU_init) (run default_max_steps))) = Some []"
proof -
  let ?M = "1 # 7 # 0 # 2 # 5 # 0 # 5 # 0 # 0 # 9 # 0 # 0 # 255 # 0 # 0 # 255 # replicate 65520 (0::int)"
  let ?s0 = "TinyCPU_init\<lparr>mem := ?M\<rparr>"
  let ?s1 = "?s0\<lparr>PC := 3, A := 7, Z := False\<rparr>"
  let ?s2 = "?s1\<lparr>PC := 6, B := 5, Z := False\<rparr>"
  let ?s3 = "?s2\<lparr>PC := 7, A := 12, Z := False\<rparr>"
  let ?s4 = "?s3\<lparr>PC := 8\<rparr>"
  have wf0: "wf_cpu ?s0"
    using load_program_keeps_wf [OF wf_init prog_loaded] .
  have st0: "step ?s0 = Inr ?s1"
    by (subst step_wf [OF wf0]) (simp add: opcode_at_def operand_at_def Let_def)
  have wf1: "wf_cpu ?s1"
    using step_Inr_wf [OF wf0 st0] .
  have st1: "step ?s1 = Inr ?s2"
    by (subst step_wf [OF wf1]) (simp add: opcode_at_def operand_at_def Let_def)
  have wf2: "wf_cpu ?s2"
    using step_Inr_wf [OF wf1 st1] .
  have st2: "step ?s2 = Inr ?s3"
    by (subst step_wf [OF wf2]) (simp add: opcode_at_def operand_at_def Let_def)
  have wf3: "wf_cpu ?s3"
    using step_Inr_wf [OF wf2 st2] .
  have st3: "step ?s3 = Inl (UnknownOpcode 0 7, ?s4)"
    by (subst step_wf [OF wf3]) (simp add: opcode_at_def operand_at_def Let_def)
  have "run_loop default_max_steps 0 ?s0 = run_loop default_max_steps 1 ?s1"
    using run_loop_Inr [OF _ _ st0, of 0 default_max_steps] by (simp add: default_max_steps_def)
  also have "\<dots> = run_loop default_max_steps 2 ?s2"
    using run_loop_Inr [OF _ _ st1, of 1 default_max_steps] by (simp add: default_max_steps_def)
  also have "\<dots> = run_loop default_max_steps 3 ?s3"
    using run_loop_Inr [OF _ _ st2, of 2 default_max_steps] by (simp add: default_max_steps_def)
  also have "\<dots> = Inl (UnknownOpcode 0 7, ?s4)"
    using run_loop_Inl [OF _ _ st3, of 3 default_max_steps] by (simp add: default_max_steps_def)
  finally show ?thesis
    by (simp add: prog_loaded bindE_def run_def raised_def state_at_raise_def)
qed

text \<open>
  C4. A program that halts on the last step the budget allows is reported as exceeding the
  budget: \<open>[HLT]\<close> run with \<open>max_steps = 1\<close> executes \<open>HLT\<close> (the engine is halted, \<open>running\<close>
  is false) and \<open>run\<close> still raises the max-steps failure, because it tests
  \<open>steps >= max_steps\<close> and not \<open>running\<close>.
\<close>

theorem halt_on_last_step_raises:
  "raised (bindE (load_program [(''HLT'', Some 0)] TinyCPU_init) (run 1)) =
     Some MaxStepsReached \<and>
   map_option running
     (state_at_raise (bindE (load_program [(''HLT'', Some 0)] TinyCPU_init) (run 1))) =
     Some False"
proof -
  let ?s0 = "TinyCPU_init\<lparr>mem := 255 # 0 # 0 # 255 # replicate 65532 0\<rparr>"
  let ?s1 = "?s0\<lparr>PC := 1, running := False\<rparr>"
  have wf0: "wf_cpu ?s0"
    using load_program_keeps_wf [OF wf_init hlt_loaded] .
  have st0: "step ?s0 = Inr ?s1"
    by (subst step_wf [OF wf0]) (simp add: opcode_at_def operand_at_def Let_def)
  have "run_loop 1 0 ?s0 = run_loop 1 1 ?s1"
    using run_loop_Inr [OF _ _ st0, of 0 1] by simp
  also have "\<dots> = Inr (1, ?s1)"
    by (rule run_loop_stop) simp
  finally show ?thesis
    by (simp add: hlt_loaded bindE_def run_def raised_def state_at_raise_def)
qed

text \<open>
  C5. An unknown opcode fetched at address 65535 is reported at \<open>-1\<close>: the program
  \<open>[JMP 65535]\<close> jumps to the last cell, which holds 0; \<open>step\<close> wraps the program counter
  to 0 before it formats \<open>self.PC-1\<close>, so the failure carries \<open>-1\<close> and not 65535.
\<close>

theorem unknown_opcode_at_top_reports_minus_one:
  "raised (bindE (load_program [(''JMP'', Some 65535)] TinyCPU_init) (run default_max_steps)) =
     Some (UnknownOpcode 0 (- 1))"
proof -
  let ?M = "7 # 255 # 255 # 255 # replicate 65532 (0::int)"
  let ?s0 = "TinyCPU_init\<lparr>mem := ?M\<rparr>"
  let ?s1 = "?s0\<lparr>PC := 65535\<rparr>"
  let ?s2 = "?s1\<lparr>PC := 0\<rparr>"
  have wf0: "wf_cpu ?s0"
    using load_program_keeps_wf [OF wf_init jmp_top_loaded] .
  have st0: "step ?s0 = Inr ?s1"
    by (subst step_wf [OF wf0]) (simp add: opcode_at_def operand_at_def Let_def)
  have wf1: "wf_cpu ?s1"
    using step_Inr_wf [OF wf0 st0] .
  have top: "?M ! 65535 = 0"
    by simp
  have st1: "step ?s1 = Inl (UnknownOpcode 0 (- 1), ?s2)"
    by (subst step_wf [OF wf1]) (simp add: opcode_at_def Let_def top)
  have "run_loop default_max_steps 0 ?s0 = run_loop default_max_steps 1 ?s1"
    using run_loop_Inr [OF _ _ st0, of 0 default_max_steps] by (simp add: default_max_steps_def)
  also have "\<dots> = Inl (UnknownOpcode 0 (- 1), ?s2)"
    using run_loop_Inl [OF _ _ st1, of 1 default_max_steps] by (simp add: default_max_steps_def)
  finally show ?thesis
    by (simp add: jmp_top_loaded bindE_def run_def raised_def)
qed

text \<open>
  C2. In every well-formed state (memory of 65536 bytes, program counter in range) one step
  reads the opcode byte at \<open>PC\<close>. For \<open>LDA\<close>, \<open>LDB\<close>, \<open>LDA_MEM\<close>, \<open>STA\<close>, \<open>JMP\<close> and \<open>JZ\<close>
  it then reads the two bytes at \<open>PC + 1\<close> and \<open>PC + 2\<close> (mod 65536) as a little-endian
  operand, which leaves the program counter at \<open>PC + 3\<close> (mod 65536) before the instruction
  acts on that operand; for \<open>ADD\<close>, \<open>SUB\<close>, \<open>OUT\<close> and \<open>HLT\<close>, and for an unknown opcode,
  no operand is read and the program counter ends at \<open>PC + 1\<close> (mod 65536).
\<close>

theorem step_fetch_and_operand:
  assumes "wf_cpu s"
  shows
    "(mnemonic_at s \<in> {Some ''LDA'', Some ''LDB'', Some ''LDA_MEM'', Some ''STA'',
                          Some ''JMP'', Some ''JZ''} \<longrightarrow>
        fetch_operand (s\<lparr>PC := (PC s + 1) mod 65536\<rparr>) =
          Inr (operand_at s, s\<lparr>PC := (PC s + 3) mod 65536\<rparr>)) \<and>
     (mnemonic_at s = Some ''LDA'' \<longrightarrow>
        step s = Inr (s\<lparr>PC := (PC s + 3) mod 65536, A := operand_at s mod 256,
                         Z := (operand_at s mod 256 = 0)\<rparr>)) \<and>
     (mnemonic_at s = Some ''LDB'' \<longrightarrow>
        step s = Inr (s\<lparr>PC := (PC s + 3) mod 65536, B := operand_at s mod 256,
                         Z := (operand_at s mod 256 = 0)\<rparr>)) \<and>
     (mnemonic_at s = Some ''LDA_MEM'' \<longrightarrow>
        step s = Inr (s\<lparr>PC := (PC s + 3) mod 65536, A := mem s ! nat (operand_at s),
                         Z := (mem s ! nat (operand_at s) = 0)\<rparr>)) \<and>
     (mnemonic_at s = Some ''STA'' \<longrightarrow>
        step s = Inr (s\<lparr>PC := (PC s + 3) mod 65536,
                         mem := (mem s)[nat (operand_at s) := A s mod 256]\<rparr>)) \<and>
     (mnemonic_at s = Some ''JMP'' \<longrightarrow> step s = Inr (s\<lparr>PC := operand_at s\<rparr>)) \<and>
     (mnemonic_at s = Some ''JZ'' \<longrightarrow>
        step s = Inr (s\<lparr>PC := (if Z s then operand_at s else (PC s + 3) mod 65536)\<rparr>)) \<and>
     (mnemonic_at s = Some ''ADD'' \<longrightarrow>
        step s = Inr (s\<lparr>PC := (PC s + 1) mod 65536, A := (A s + B s) mod 256,
                         Z := ((A s + B s) mod 256 = 0)\<rparr>)) \<and>
     (mnemonic_at s = Some ''SUB'' \<longrightarrow>
        step s = Inr (s\<lparr>PC := (PC s + 1) mod 65536, A := (A s - B s) mod 256,
                         Z := ((A s - B s) mod 256 = 0)\<rparr>)) \<and>
     (mnemonic_at s = Some ''OUT'' \<longrightarrow>
        step s = Inr (s\<lparr>PC := (PC s + 1) mod 65536, output' := output' s @ [A s]\<rparr>)) \<and>
     (mnemonic_at s = Some ''HLT'' \<longrightarrow>
        step s = Inr (s\<lparr>PC := (PC s + 1) mod 65536, running := False\<rparr>)) \<and>
     (mnemonic_at s = None \<longrightarrow>
        state_at_raise (step s) = Some (s\<lparr>PC := (PC s + 1) mod 65536\<rparr>))"
  by (intro conjI impI)
     (simp_all add: step_wf [OF assms] fetch_operand_wf [OF assms, unfolded mask16]
        mnemonic_at_simps mnemonic_at_None Let_def state_at_raise_def)

theorem step_fetch_and_operand_witness:
  "wf_cpu (TinyCPU_init\<lparr>mem := 1 # 7 # 0 # 2 # 5 # 0 # 5 # 0 # 0 # 9 # 0 # 0 # 255 # 0 # 0 #
                                  255 # replicate 65520 0\<rparr>) \<and>
   mnemonic_at (TinyCPU_init\<lparr>mem := 1 # 7 # 0 # 2 # 5 # 0 # 5 # 0 # 0 # 9 # 0 # 0 # 255 # 0 #
                                  0 # 255 # replicate 65520 0\<rparr>) = Some ''LDA'' \<and>
   step (TinyCPU_init\<lparr>mem := 1 # 7 # 0 # 2 # 5 # 0 # 5 # 0 # 0 # 9 # 0 # 0 # 255 # 0 # 0 #
                                  255 # replicate 65520 0\<rparr>) =
     Inr (TinyCPU_init\<lparr>mem := 1 # 7 # 0 # 2 # 5 # 0 # 5 # 0 # 0 # 9 # 0 # 0 # 255 # 0 # 0 #
                                  255 # replicate 65520 0, PC := 3, A := 7, Z := False\<rparr>)"
proof -
  let ?s0 = "TinyCPU_init\<lparr>mem := 1 # 7 # 0 # 2 # 5 # 0 # 5 # 0 # 0 # 9 # 0 # 0 # 255 # 0 # 0 #
                                  255 # replicate 65520 0\<rparr>"
  have wf0: "wf_cpu ?s0"
    using load_program_keeps_wf [OF wf_init prog_loaded] .
  have m: "mnemonic_at ?s0 = Some ''LDA''"
    by (simp add: mnemonic_at_simps opcode_at_def)
  have v: "operand_at ?s0 = 7"
    by (simp add: operand_at_def)
  from step_fetch_and_operand [OF wf0] m
  have "step ?s0 = Inr (?s0\<lparr>PC := (PC ?s0 + 3) mod 65536, A := operand_at ?s0 mod 256,
                         Z := (operand_at ?s0 mod 256 = 0)\<rparr>)"
    by blast
  then show ?thesis
    using wf0 m unfolding v by simp
qed

text \<open>
  C7. Along any sequence of steps from a well-formed state whose flag is clear (the initial
  state of a loaded CPU), \<open>Z\<close> is true exactly when the most recent value written into \<open>A\<close>
  or \<open>B\<close> by \<open>LDA\<close>, \<open>LDB\<close>, \<open>LDA_MEM\<close>, \<open>ADD\<close> or \<open>SUB\<close> was zero (\<open>track\<close> follows the
  steps of the code and records that value), and a step executing \<open>STA\<close>, \<open>JMP\<close>, \<open>JZ\<close>,
  \<open>OUT\<close> or \<open>HLT\<close> leaves \<open>Z\<close> unchanged.
\<close>

theorem zero_flag_tracks_last_write:
  assumes "wf_cpu s0" "\<not> Z s0" "track n s0 None = Inr (s, w)"
  shows "Z s = (w = Some 0) \<and>
         (\<forall>s'. step s = Inr s' \<and>
               mnemonic_at s \<in> {Some ''STA'', Some ''JMP'', Some ''JZ'', Some ''OUT'',
                                  Some ''HLT''} \<longrightarrow> Z s' = Z s)"
proof -
  have "Z s0 = (None = Some (0::int))"
    using assms(2) by simp
  from track_invariant [OF assms(1) this assms(3)]
  have wf: "wf_cpu s" and z: "Z s = (w = Some 0)"
    by simp_all
  show ?thesis
    using z step_Z_unchanged [OF wf] by blast
qed

theorem zero_flag_tracks_last_write_witness:
  "wf_cpu (TinyCPU_init\<lparr>mem := 1 # 0 # 0 # 255 # replicate 65532 0\<rparr>) \<and>
   \<not> Z (TinyCPU_init\<lparr>mem := 1 # 0 # 0 # 255 # replicate 65532 0\<rparr>) \<and>
   track (Suc 0) (TinyCPU_init\<lparr>mem := 1 # 0 # 0 # 255 # replicate 65532 0\<rparr>) None =
     Inr (TinyCPU_init\<lparr>mem := 1 # 0 # 0 # 255 # replicate 65532 0, PC := 3, A := 0,
                         Z := True\<rparr>, Some 0) \<and>
   Z (TinyCPU_init\<lparr>mem := 1 # 0 # 0 # 255 # replicate 65532 0, PC := 3, A := 0, Z := True\<rparr>)"
proof -
  let ?s0 = "TinyCPU_init\<lparr>mem := 1 # 0 # 0 # 255 # replicate 65532 0\<rparr>"
  let ?s1 = "?s0\<lparr>PC := 3, A := 0, Z := True\<rparr>"
  have wf0: "wf_cpu ?s0"
    using load_program_keeps_wf [OF wf_init lda0_loaded] .
  have z0: "\<not> Z ?s0"
    by simp
  have m: "mnemonic_at ?s0 = Some ''LDA''"
    by (simp add: mnemonic_at_simps opcode_at_def)
  have st0: "step ?s0 = Inr ?s1"
    by (subst step_wf [OF wf0]) (simp add: opcode_at_def operand_at_def Let_def)
  have tr: "track (Suc 0) ?s0 None = Inr (?s1, Some 0)"
    by (simp add: st0 produced_def m)
  from zero_flag_tracks_last_write [OF wf0 z0 tr] have "Z ?s1"
    by simp
  then show ?thesis
    using wf0 z0 tr by simp
qed

text \<open>
  C3 (amended). For every sequence \<open>p\<close> of known-mnemonic instructions that fits into the
  memory together with the final byte (\<open>3 * length p + 1 \<le> 65536\<close>), \<open>load_program\<close>
  succeeds and the new memory is: the encodings of the instructions in order from address 0,
  3 bytes each (opcode, low operand byte, high operand byte), then the \<open>HLT\<close> opcode 255 at
  address \<open>3 * length p\<close>, then the old contents of all later cells. Nothing but the memory
  changes.
\<close>

theorem load_program_layout:
  assumes "int (length (mem s)) = MEM_SIZE" "list_all known p" "3 * length p + 1 \<le> 65536"
  shows "load_program p s =
           Inr (s\<lparr>mem := encode p @ 255 # drop (3 * length p + 1) (mem s)\<rparr>) \<and>
         length (encode p) = 3 * length p \<and>
         (\<forall>k<length p. take 3 (drop (3 * k) (encode p)) =
            [the (OPCODES_INV (upper (fst (p ! k)))), operand_of (p ! k) mod 256,
             (operand_of (p ! k) div 256) mod 256])"
proof (intro conjI allI impI)
  show "load_program p s = Inr (s\<lparr>mem := encode p @ 255 # drop (3 * length p + 1) (mem s)\<rparr>)"
    using load_program_ok [OF assms] .
  show "length (encode p) = 3 * length p"
    using length_encode [OF assms(2)] .
  fix k assume k: "k < length p"
  then have "known (p ! k)"
    using assms(2) by (simp add: list_all_length)
  then have "encode_instr (p ! k) =
      [the (OPCODES_INV (upper (fst (p ! k)))), operand_of (p ! k) mod 256,
       (operand_of (p ! k) div 256) mod 256]"
    by (auto simp: encode_instr_def known_def)
  then show "take 3 (drop (3 * k) (encode p)) =
      [the (OPCODES_INV (upper (fst (p ! k)))), operand_of (p ! k) mod 256,
       (operand_of (p ! k) div 256) mod 256]"
    using encode_at [OF assms(2) k] by simp
qed

theorem load_program_layout_witness:
  "int (length (mem TinyCPU_init)) = MEM_SIZE \<and> list_all known prog \<and>
   3 * length prog + 1 \<le> 65536 \<and>
   load_program prog TinyCPU_init =
     Inr (TinyCPU_init\<lparr>mem := 1 # 7 # 0 # 2 # 5 # 0 # 5 # 0 # 0 # 9 # 0 # 0 # 255 # 0 # 0 #
                                 255 # replicate 65520 0\<rparr>)"
proof -
  have k: "list_all known prog"
    by (simp add: prog_def known_def inv_vals)
  have le: "3 * length prog + 1 \<le> 65536"
    by (simp add: prog_def)
  have e: "encode prog = [1, 7, 0, 2, 5, 0, 5, 0, 0, 9, 0, 0, 255, 0, 0]"
    by (simp add: prog_def encode_def encode_instr_def operand_of_def inv_vals)
  have d: "drop (3 * length prog + 1) (mem TinyCPU_init) = replicate 65520 0"
    by (simp add: prog_def TinyCPU_init_def MEM_SIZE_def)
  from load_program_layout [OF init_length k le]
  have "load_program prog TinyCPU_init =
          Inr (TinyCPU_init\<lparr>mem := encode prog @ 255 # drop (3 * length prog + 1)
                                                        (mem TinyCPU_init)\<rparr>)"
    by blast
  then show ?thesis
    using init_length k le unfolding e d by simp
qed

text \<open>
  A program of 21846 \<open>HLT\<close> instructions needs 65538 bytes: the loader's address is not
  wrapped, so the write at address 65536 raises IndexError.
\<close>

theorem load_program_too_long_raises:
  "list_all known (replicate 21846 (''HLT'', Some 0)) \<and>
   raised (load_program (replicate 21846 (''HLT'', Some 0)) TinyCPU_init) = Some IndexError"
proof -
  have k: "list_all known (replicate 21846 (''HLT'', Some 0))"
    using known_replicate [OF known_HLT] .
  have "65536 < 3 * length (replicate 21846 (''HLT'', Some (0::int))) + 1"
    by simp
  from load_program_overflow [OF init_length k this, of "[]"] show ?thesis
    using k by simp
qed

text \<open>
  C9 (amended). When the first instruction with an unknown mnemonic stands at an index of at
  most 21845 (all instructions before it fit into the memory), \<open>load_program\<close> raises
  KeyError carrying the upper-cased mnemonic, and the memory at the raise holds the encodings
  of the instructions before it and is otherwise unchanged: no byte is written for the
  offending instruction or for any later one. When it stands at a later index, the load
  fails with IndexError before the mnemonic is ever looked up.
\<close>

theorem load_program_unknown_mnemonic:
  assumes "int (length (mem s)) = MEM_SIZE" "list_all known pre" "\<not> known i"
  shows "(3 * length pre \<le> 65536 \<longrightarrow>
            load_program (pre @ i # post) s =
              Inl (KeyError (upper (fst i)),
                   s\<lparr>mem := encode pre @ drop (3 * length pre) (mem s)\<rparr>)) \<and>
         (65536 < 3 * length pre \<longrightarrow>
            raised (load_program (pre @ i # post) s) = Some IndexError)"
proof (intro conjI impI)
  have n: "OPCODES_INV (upper (fst i)) = None"
    using assms(3) by (simp add: known_def)
  assume "3 * length pre \<le> 65536"
  from load_program_unknown [OF assms(1,2) this n]
  show "load_program (pre @ i # post) s =
          Inl (KeyError (upper (fst i)), s\<lparr>mem := encode pre @ drop (3 * length pre) (mem s)\<rparr>)" .
next
  assume "65536 < 3 * length pre"
  then have "65536 < 3 * length pre + 1"
    by simp
  from load_program_overflow [OF assms(1,2) this]
  show "raised (load_program (pre @ i # post) s) = Some IndexError" .
qed

theorem load_program_unknown_mnemonic_witness:
  "int (length (mem TinyCPU_init)) = MEM_SIZE \<and> list_all known [(''LDA'', Some 7)] \<and>
   \<not> known (''NOP'', Some 0) \<and>
   load_program ([(''LDA'', Some 7)] @ (''NOP'', Some 0) # [(''HLT'', Some 0)]) TinyCPU_init =
     Inl (KeyError ''NOP'', TinyCPU_init\<lparr>mem := 1 # 7 # 0 # replicate 65533 0\<rparr>)"
proof -
  have k: "list_all known [(''LDA'', Some 7)]"
    by (simp add: known_def inv_vals)
  have u: "\<not> known (''NOP'', Some 0)"
    by (simp add: known_def unknown_NOP)
  have un: "upper ''NOP'' = ''NOP''"
    by (simp add: upper_def upper_char_def)
  have e: "encode [(''LDA'', Some 7)] = [1, 7, 0]"
    by (simp add: encode_def encode_instr_def operand_of_def inv_vals)
  have d: "drop (3 * length [(''LDA'', Some (7::int))]) (mem TinyCPU_init) = replicate 65533 0"
    by (simp add: TinyCPU_init_def MEM_SIZE_def)
  from load_program_unknown_mnemonic [OF init_length k u, of "[(''HLT'', Some 0)]"]
  have "load_program ([(''LDA'', Some 7)] @ (''NOP'', Some 0) # [(''HLT'', Some 0)]) TinyCPU_init =
          Inl (KeyError (upper (fst (''NOP'', Some (0::int)))),
               TinyCPU_init\<lparr>mem := encode [(''LDA'', Some 7)] @
                                      drop (3 * length [(''LDA'', Some (7::int))])
                                        (mem TinyCPU_init)\<rparr>)"
    by simp
  then show ?thesis
    using init_length k u unfolding e d by (simp add: un)
qed

text \<open>
  With 21846 known instructions in front of it, the unknown mnemonic \<open>NOP\<close> is never
  reported: the load fails with IndexError.
\<close>

theorem unknown_mnemonic_after_overflow:
  "\<not> known (''NOP'', Some 0) \<and>
   raised (load_program (replicate 21846 (''HLT'', Some 0) @ [(''NOP'', Some 0)]) TinyCPU_init) =
     Some IndexError"
proof -
  have k: "list_all known (replicate 21846 (''HLT'', Some 0))"
    using known_replicate [OF known_HLT] .
  have u: "\<not> known (''NOP'', Some 0)"
    by (simp add: known_def unknown_NOP)
  have "65536 < 3 * length (replicate 21846 (''HLT'', Some (0::int))) + 1"
    by simp
  from load_program_overflow [OF init_length k this, of "[(''NOP'', Some 0)]"] show ?thesis
    using u by simp
qed

text \<open>
  C6 (amended). The engine's addresses wrap modulo 65536 and never leave the memory: from a
  well-formed state neither \<open>step\<close> nor \<open>run\<close> raises IndexError, the operand fetch reads the
  cells \<open>PC\<close> and \<open>PC + 1\<close> (mod 65536) and moves the program counter to \<open>PC + 2\<close> (mod 65536),
  and a step leads to a well-formed state again. The loader's addresses are not wrapped:
  a program of known instructions loads without an out-of-range access exactly when
  \<open>3 * length p + 1 \<le> 65536\<close>, and otherwise \<open>load_program\<close> raises IndexError.
\<close>

theorem engine_wraps_loader_does_not:
  assumes "wf_cpu s"
  shows "raised (step s) \<noteq> Some IndexError \<and>
         raised (run max_steps s) \<noteq> Some IndexError \<and>
         fetch_operand s =
           Inr (mem s ! nat (PC s) + 256 * (mem s ! nat ((PC s + 1) mod 65536)),
                s\<lparr>PC := (PC s + 2) mod 65536\<rparr>) \<and>
         (\<forall>s'. step s = Inr s' \<longrightarrow> wf_cpu s') \<and>
         (list_all known p \<longrightarrow>
            (3 * length p + 1 \<le> 65536 \<longrightarrow> raised (load_program p s) = None) \<and>
            (65536 < 3 * length p + 1 \<longrightarrow> raised (load_program p s) = Some IndexError))"
proof (intro conjI allI impI)
  show "raised (step s) \<noteq> Some IndexError"
    using step_no_index [OF assms] .
  show "raised (run max_steps s) \<noteq> Some IndexError"
    using run_no_index [OF assms] .
  show "fetch_operand s =
          Inr (mem s ! nat (PC s) + 256 * (mem s ! nat ((PC s + 1) mod 65536)),
               s\<lparr>PC := (PC s + 2) mod 65536\<rparr>)"
    using fetch_operand_direct [OF assms] .
next
  fix s' assume "step s = Inr s'"
  then show "wf_cpu s'"
    using step_Inr_wf [OF assms] by simp
next
  assume "list_all known p" "3 * length p + 1 \<le> 65536"
  from load_program_ok [OF wf_length [OF assms] this]
  show "raised (load_program p s) = None"
    by (simp add: raised_def)
next
  assume "list_all known p" "65536 < 3 * length p + 1"
  from load_program_overflow [OF wf_length [OF assms] this, of "[]"]
  show "raised (load_program p s) = Some IndexError"
    by simp
qed

theorem engine_wraps_loader_does_not_witness:
  "wf_cpu TinyCPU_init \<and> list_all known prog \<and> 3 * length prog + 1 \<le> 65536 \<and>
   raised (step TinyCPU_init) \<noteq> Some IndexError \<and>
   raised (run default_max_steps TinyCPU_init) \<noteq> Some IndexError \<and>
   raised (load_program prog TinyCPU_init) = None"
proof -
  have k: "list_all known prog"
    by (simp add: prog_def known_def inv_vals)
  have le: "3 * length prog + 1 \<le> 65536"
    by (simp add: prog_def)
  from engine_wraps_loader_does_not [OF wf_init, of default_max_steps prog] show ?thesis
    using wf_init k le by blast
qed

text \<open>
  30000 operand-less \<open>ADD\<close> instructions need 90000 bytes; the load raises IndexError
  instead of wrapping around.
\<close>

theorem load_program_does_not_wrap:
  "raised (load_program (replicate 30000 (''ADD'', None)) TinyCPU_init) = Some IndexError"
proof -
  have k: "list_all known (replicate 30000 (''ADD'', None))"
    using known_replicate [OF known_ADD] .
  have "65536 < 3 * length (replicate 30000 (''ADD'', None :: int option)) + 1"
    by simp
  from load_program_overflow [OF init_length k this, of "[]"] show ?thesis
    by simp
qed

text \<open>
  C10. \<open>load_program\<close> is case-insensitive in the mnemonics: when \<open>q\<close> is \<open>p\<close> with the case
  of any letters of any mnemonics changed (operands the same), loading \<open>q\<close> gives exactly
  the result of loading \<open>p\<close>, which is also the result of loading \<open>p\<close> spelled in upper case;
  this holds from every state and includes the memory written.
\<close>

theorem load_program_case_insensitive:
  assumes "list_all2 same_instr p q"
  shows "load_program q s = load_program p s \<and>
         load_program q s = load_program (map (\<lambda>i. (upper (fst i), snd i)) p) s"
  by (simp add: load_program_def load_loop_variant [OF assms] load_loop_upper)

theorem load_program_case_insensitive_witness:
  "list_all2 same_instr [(''LDA'', Some 7), (''HLT'', Some 0)]
                        [(''lda'', Some 7), (''Hlt'', Some 0)] \<and>
   load_program [(''lda'', Some 7), (''Hlt'', Some 0)] TinyCPU_init =
     Inr (TinyCPU_init\<lparr>mem := 1 # 7 # 0 # 255 # 0 # 0 # 255 # replicate 65529 0\<rparr>)"
proof -
  have h: "list_all2 same_instr [(''LDA'', Some 7), (''HLT'', Some 0)]
                                [(''lda'', Some 7), (''Hlt'', Some 0)]"
    by code_simp
  from load_program_case_insensitive [OF h, of TinyCPU_init]
  have "load_program [(''lda'', Some 7), (''Hlt'', Some 0)] TinyCPU_init =
          load_program [(''LDA'', Some 7), (''HLT'', Some 0)] TinyCPU_init"
    by blast
  then show ?thesis
    using h unfolding lda_hlt_loaded by simp
qed

end
